theory Spec2Isabelle
  imports Main
begin

section \<open>Exceptions and their texts\<close>

text \<open>
  The server raises \<open>HTTPException(status_code, detail)\<close>; the session client and the
  arithmetic of the handlers raise exceptions of their own. A detail or a stored error text
  is built from literal strings and from \<open>str(e)\<close> of a caught exception \<open>e\<close>. The text
  that \<open>str\<close> gives for an exception belongs to the libraries, so it is kept as the
  part \<open>Str e\<close>: an f-string is the list of its parts.
\<close>

datatype part = Lit string | Str exn
  and exn = Raised string | ZeroDivisionError | TypeError | AttributeError
    | HTTPException nat "part list"

section \<open>The progressive candle endpoint\<close>

subsection \<open>Data\<close>

text \<open>
  A candle is the dictionary the session client returns, with the keys \<open>time\<close>,
  \<open>open\<close>, \<open>close\<close>, \<open>high\<close>, \<open>low\<close> and \<open>volume\<close>. The prices are
  floating-point numbers; their type is the parameter \<open>'p\<close>, and equality on it stands for
  Python's \<open>==\<close> on the values.
\<close>

record 'p candle =
  c_time :: int
  c_open :: 'p
  c_close :: 'p
  c_high :: 'p
  c_low :: 'p
  c_volume :: int

text \<open>\<open>class CandleRequest(BaseModel)\<close>: \<open>offset\<close> is \<open>Optional[int]\<close>.\<close>

record candle_request =
  asset :: string
  period :: int
  days :: int
  offset :: "int option"

text \<open>The arguments of one \<open>client.get_candles(asset, end_from_time, offset, period, progressive=True)\<close>.\<close>

record call =
  arg_asset :: string
  arg_end_time :: int
  arg_offset :: int
  arg_period :: int
  arg_progressive :: bool

text \<open>
  The session client is an injected dependency with a state of its own (type \<open>'s\<close>). A
  retrieval call either raises or returns; what it returns is a list of candles or
  \<open>None\<close>.
\<close>

type_synonym 'p outcome = "exn + 'p candle list option"

type_synonym ('s, 'p) get_candles = "call \<Rightarrow> 's \<Rightarrow> 'p outcome \<times> 's"

text \<open>
  The variables of the loop. \<open>offset_now\<close> is \<open>request.offset\<close>, which the loop body
  may overwrite. \<open>issued\<close> is not a variable of the source: it lists, oldest first, the
  retrieval calls made so far with what each gave.
\<close>

record ('s, 'p) fetch_state =
  session :: 's
  list_candles :: "'p candle list"
  offset_now :: int
  end_from_time :: int
  issued :: "(call \<times> 'p outcome) list"

text \<open>The dictionary returned by the endpoint.\<close>

record 'p progressive_response =
  r_asset :: string
  r_period :: int
  r_days :: int
  r_count :: nat
  r_candles :: "'p candle list"

subsection \<open>The loop\<close>

text \<open>\<open>if candles:\<close> holds for a list that is not empty; \<open>None\<close> and \<open>[]\<close> are false.\<close>

fun truthy :: "'a list option \<Rightarrow> bool" where
  "truthy None = False"
| "truthy (Some xs) = (xs \<noteq> [])"

fun candles_of :: "'a list option \<Rightarrow> 'a list" where
  "candles_of None = []"
| "candles_of (Some xs) = xs"

text \<open>The arguments of the retrieval call that the loop body makes in the state \<open>st\<close>.\<close>

definition next_call :: "string \<Rightarrow> int \<Rightarrow> ('s, 'p) fetch_state \<Rightarrow> call" where
  "next_call a p st =
     \<lparr>arg_asset = a, arg_end_time = end_from_time st, arg_offset = offset_now st,
      arg_period = p, arg_progressive = True\<rparr>"

text \<open>
  \<open>for i in range(size): ...\<close> over the list of the indices still to run; \<open>sz\<close>
  is the source's \<open>size\<close>. The first component of the result is the exception that left
  the loop, if one did.
\<close>

fun progressive_loop ::
  "('s, 'p) get_candles \<Rightarrow> string \<Rightarrow> int \<Rightarrow> int \<Rightarrow> int list \<Rightarrow> ('s, 'p) fetch_state
    \<Rightarrow> exn option \<times> ('s, 'p) fetch_state" where
  "progressive_loop gc a p sz [] st = (None, st)"
| "progressive_loop gc a p sz (i # is) st =
     (let c = next_call a p st;
          (r, s') = gc c (session st);
          st1 = st\<lparr>session := s', issued := issued st @ [(c, r)]\<rparr>
      in case r of
           Inl e \<Rightarrow> (Some e, st1)
         | Inr candles \<Rightarrow>
             (let st2 = (if truthy candles
                         then st1\<lparr>list_candles := list_candles st1 @ candles_of candles\<rparr>
                         else st1);
                  st3 = (if i \<ge> sz then st2\<lparr>offset_now := offset_now st2 * 2\<rparr> else st2);
                  st4 = st3\<lparr>end_from_time := end_from_time st3 + offset_now st3\<rparr>
              in progressive_loop gc a p sz is st4))"

subsection \<open>Removing duplicates\<close>

text \<open>
  \<open>{frozenset(d.items()): d for d in list_candles}\<close>: a Python dictionary keeps its keys
  in the order of their first insertion, and storing under a key that is present replaces
  the value and keeps the key's place.
\<close>

fun dict_set :: "('k \<times> 'v) list \<Rightarrow> 'k \<Rightarrow> 'v \<Rightarrow> ('k \<times> 'v) list" where
  "dict_set [] k v = [(k, v)]"
| "dict_set ((k', v') # m) k v =
     (if k' = k then (k', v) # m else (k', v') # dict_set m k v)"

text \<open>
  \<open>frozenset(d.items())\<close>: the set of the (key, value) pairs of the candle. Two candles
  have the same one exactly if they agree on every field.
\<close>

definition candle_key :: "'p candle \<Rightarrow> int \<times> 'p \<times> 'p \<times> 'p \<times> 'p \<times> int" where
  "candle_key d = (c_time d, c_open d, c_close d, c_high d, c_low d, c_volume d)"

definition unique_candles :: "'p candle list \<Rightarrow> 'p candle list" where
  "unique_candles xs = map snd (foldl (\<lambda>m d. dict_set m (candle_key d) d) [] xs)"

text \<open>
  The association list of the dictionary in \<open>unique_candles\<close>: no key twice, and every
  candle stored under its own key.
\<close>

definition keyed :: "((int \<times> 'p \<times> 'p \<times> 'p \<times> 'p \<times> int) \<times> 'p candle) list \<Rightarrow> bool" where
  "keyed m \<longleftrightarrow> distinct (map fst m) \<and> (\<forall>x\<in>set m. fst x = candle_key (snd x))"

subsection \<open>The handler\<close>

text \<open>
  The body of \<open>get_candles_progressive\<close> after \<open>await ensure_connection()\<close>.
  \<open>T\<close> is \<open>int(timestamp)\<close>, the integer timestamp of \<open>request.days\<close> days ago
  (\<open>get_timestamp_days_ago\<close> belongs to the session library). Python's \<open>%\<close> raises
  for a zero divisor and otherwise takes the sign of the divisor, as \<open>mod\<close> on \<open>int\<close>
  does; adding \<open>None\<close> raises a \<open>TypeError\<close>. Every exception of the body is caught
  and raised again as \<open>HTTPException(status_code=500, detail=str(e))\<close>.
  The result holds what the handler returns or raises, the retrieval calls it made, and the
  state of the session afterwards.
\<close>

definition loop_start :: "'s \<Rightarrow> int \<Rightarrow> int \<Rightarrow> int \<Rightarrow> ('s, 'p) fetch_state" where
  "loop_start s T p off =
     \<lparr>session = s, list_candles = [], offset_now = off,
      end_from_time = (T - T mod p) + off, issued = []\<rparr>"

definition try_body ::
  "('s, 'p) get_candles \<Rightarrow> int \<Rightarrow> 's \<Rightarrow> candle_request
    \<Rightarrow> (exn + 'p progressive_response) \<times> (call \<times> 'p outcome) list \<times> 's" where
  "try_body gc T s request =
     (let sz = days request * 24 in
      if period request = 0 then (Inl ZeroDivisionError, [], s)
      else case offset request of
        None \<Rightarrow> (Inl TypeError, [], s)
      | Some off \<Rightarrow>
          (let st0 = loop_start s T (period request) off;
               (ex, st) = progressive_loop gc (asset request) (period request) sz [0..sz - 1] st0
           in case ex of
                Some e \<Rightarrow> (Inl e, issued st, session st)
              | None \<Rightarrow>
                  (let unique = unique_candles (list_candles st)
                   in (Inr \<lparr>r_asset = asset request, r_period = period request,
                            r_days = days request, r_count = length unique,
                            r_candles = unique\<rparr>,
                       issued st, session st))))"

definition get_candles_progressive ::
  "('s, 'p) get_candles \<Rightarrow> int \<Rightarrow> 's \<Rightarrow> candle_request
    \<Rightarrow> (exn + 'p progressive_response) \<times> (call \<times> 'p outcome) list \<times> 's" where
  "get_candles_progressive gc T s request =
     (case try_body gc T s request of
        (Inl e, tr, s') \<Rightarrow> (Inl (HTTPException 500 [Str e]), tr, s')
      | (Inr resp, tr, s') \<Rightarrow> (Inr resp, tr, s'))"

text \<open>Session clients for running the handler on concrete inputs.\<close>

definition always_empty :: "(unit, int) get_candles" where
  "always_empty c s = (Inr (Some []), s)"

text \<open>The state counts the calls; the call numbered \<open>k\<close> (from 0) raises, the others return no candle.\<close>

definition fail_at :: "nat \<Rightarrow> (nat, int) get_candles" where
  "fail_at k c n = (if n = k then Inl (Raised ''timeout'') else Inr (Some []), Suc n)"

definition request_1 :: candle_request where
  "request_1 = \<lparr>asset = ''EURUSD_otc'', period = 60, days = 1, offset = Some 3600\<rparr>"

text \<open>Two candles that differ in the volume only.\<close>

definition candle_a :: "int candle" where
  "candle_a = \<lparr>c_time = 1700000000, c_open = 10850, c_close = 10852, c_high = 10853,
               c_low = 10849, c_volume = 120\<rparr>"

definition candle_b :: "int candle" where
  "candle_b = candle_a\<lparr>c_volume := 121\<rparr>"

text \<open>A session client that returns the same three candles, one of them twice, on every call.\<close>

definition always_pair :: "(unit, int) get_candles" where
  "always_pair c s = (Inr (Some [candle_a, candle_b, candle_a]), s)"

definition fetch_result ::
  "(exn + 'p progressive_response) \<times> (call \<times> 'p outcome) list \<times> 's
    \<Rightarrow> exn + 'p progressive_response" where
  "fetch_result x = fst x"

definition fetch_calls ::
  "(exn + 'p progressive_response) \<times> (call \<times> 'p outcome) list \<times> 's \<Rightarrow> call list" where
  "fetch_calls x = map fst (fst (snd x))"

definition fetch_outcomes ::
  "(exn + 'p progressive_response) \<times> (call \<times> 'p outcome) list \<times> 's \<Rightarrow> 'p outcome list" where
  "fetch_outcomes x = map snd (fst (snd x))"

text \<open>
  The candles that the retrieval calls of a run returned, in the order of the calls: what
  the loop has accumulated in \<open>list_candles\<close>.
\<close>

definition fetched :: "'p outcome list \<Rightarrow> 'p candle list" where
  "fetched rs = concat (map (\<lambda>r. case r of Inl e \<Rightarrow> [] | Inr cs \<Rightarrow> candles_of cs) rs)"

section \<open>The connection manager\<close>

subsection \<open>State\<close>

text \<open>
  What the session client is asked to do, the acquiring and releasing of
  \<open>connection_lock\<close>, the stores into \<open>connection_status\<close> and the
  \<open>asyncio.sleep(30)\<close> of the keeper are recorded as events, oldest first. The events
  are not in the source: they are what the statements about calls and the lock speak of.
\<close>

datatype event = Acquire | Release | Connect | Check_connect | Status_write | Sleep

text \<open>
  The globals \<open>client\<close>, \<open>connection_status\<close> and \<open>last_connection_time\<close>.
  \<open>client\<close> is \<open>None\<close> or the session object, which is given by its state (type
  \<open>'s\<close>). A stored error is the text built for it. The two time values,
  \<open>datetime.now().isoformat()\<close> and \<open>time.time()\<close>, are readings of a clock (type
  \<open>nat\<close>).
\<close>

record 's world =
  client :: "'s option"
  connected :: bool
  last_error :: "part list option"
  last_connected :: "nat option"
  last_connection_time :: "nat option"
  log :: "event list"

text \<open>
  The session library is injected: \<open>Quotex(...)\<close> gives a new session,
  \<open>client.connect()\<close> raises or returns \<open>(check, reason)\<close>,
  \<open>client.check_connect()\<close> raises or returns a truth value.
\<close>

record 's env =
  new_client :: 's
  client_connect :: "'s \<Rightarrow> (exn + bool \<times> string) \<times> 's"
  client_check_connect :: "'s \<Rightarrow> (exn + bool) \<times> 's"

definition initial_world :: "'s world" where
  "initial_world =
     \<lparr>client = None, connected = False, last_error = None, last_connected = None,
      last_connection_time = None, log = []\<rparr>"

definition emit :: "event \<Rightarrow> 's world \<Rightarrow> 's world" where
  "emit e w = w\<lparr>log := log w @ [e]\<rparr>"

text \<open>\<open>connection_status["connected"] = b\<close> and the two other stores.\<close>

definition set_connected :: "bool \<Rightarrow> 's world \<Rightarrow> 's world" where
  "set_connected b w = emit Status_write (w\<lparr>connected := b\<rparr>)"

definition set_last_error :: "part list option \<Rightarrow> 's world \<Rightarrow> 's world" where
  "set_last_error x w = emit Status_write (w\<lparr>last_error := x\<rparr>)"

definition set_last_connected :: "nat option \<Rightarrow> 's world \<Rightarrow> 's world" where
  "set_last_connected x w = emit Status_write (w\<lparr>last_connected := x\<rparr>)"

text \<open>
  \<open>await client.connect()\<close> and \<open>await client.check_connect()\<close>. A method call on
  \<open>None\<close> raises an \<open>AttributeError\<close>.
\<close>

definition do_connect :: "'s env \<Rightarrow> 's world \<Rightarrow> (exn + bool \<times> string) \<times> 's world" where
  "do_connect env w =
     (case client w of
        None \<Rightarrow> (Inl AttributeError, w)
      | Some s \<Rightarrow>
          (let (r, s') = client_connect env s
           in (r, emit Connect (w\<lparr>client := Some s'\<rparr>))))"

definition do_check :: "'s env \<Rightarrow> 's world \<Rightarrow> (exn + bool) \<times> 's world" where
  "do_check env w =
     (case client w of
        None \<Rightarrow> (Inl AttributeError, w)
      | Some s \<Rightarrow>
          (let (r, s') = client_check_connect env s
           in (r, emit Check_connect (w\<lparr>client := Some s'\<rparr>))))"

subsection \<open>\<open>ensure_connection\<close>\<close>

text \<open>
  The \<open>try\<close> block of the first connect (lines 67 to 79); \<open>t\<close> is the reading of
  the clock during the call. The first component of a result is the exception raised, if
  one is.
\<close>

definition try_connect :: "'s env \<Rightarrow> nat \<Rightarrow> 's world \<Rightarrow> exn option \<times> 's world" where
  "try_connect env t w =
     (case do_connect env w of
        (Inl e, w') \<Rightarrow> (Some e, w')
      | (Inr (check, reason), w') \<Rightarrow>
          if check then
            (let w1 = set_connected True w';
                 w2 = set_last_connected (Some t) w1;
                 w3 = set_last_error None w2;
                 w4 = w3\<lparr>last_connection_time := Some t\<rparr>
             in (None, w4))
          else
            (let w1 = set_connected False w';
                 w2 = set_last_error (Some [Lit reason]) w1
             in (Some (HTTPException 503 [Lit ''Failed to connect: '', Lit reason]), w2)))"

text \<open>
  \<open>if not connection_status["connected"]: try: ... except Exception as e: ...\<close>. The
  handler also catches the \<open>HTTPException\<close> that the \<open>try\<close> block raises itself.
\<close>

definition initial_connect :: "'s env \<Rightarrow> nat \<Rightarrow> 's world \<Rightarrow> exn option \<times> 's world" where
  "initial_connect env t w =
     (if \<not> connected w then
        (case try_connect env t w of
           (Some e, w') \<Rightarrow>
             (let w1 = set_connected False w';
                  w2 = set_last_error (Some [Str e]) w1
              in (Some (HTTPException 503 [Lit ''Connection error: '', Str e]), w2))
         | (None, w') \<Rightarrow> (None, w'))
      else (None, w))"

text \<open>\<open>if not await client.check_connect(): ...\<close> (lines 87 to 98).\<close>

definition check_alive :: "'s env \<Rightarrow> nat \<Rightarrow> 's world \<Rightarrow> exn option \<times> 's world" where
  "check_alive env t w =
     (case do_check env w of
        (Inl e, w') \<Rightarrow> (Some e, w')
      | (Inr alive, w') \<Rightarrow>
          if \<not> alive then
            (let w1 = set_connected False w'
             in case do_connect env w1 of
                  (Inl e, w2) \<Rightarrow> (Some e, w2)
                | (Inr (check, reason), w2) \<Rightarrow>
                    if check then
                      (let w3 = set_connected True w2;
                           w4 = set_last_connected (Some t) w3;
                           w5 = w4\<lparr>last_connection_time := Some t\<rparr>
                       in (None, w5))
                    else
                      (let w3 = set_last_error (Some [Lit reason]) w2
                       in (Some (HTTPException 503 [Lit ''Reconnection failed: '', Lit reason]),
                           w3)))
          else (None, w'))"

text \<open>The body under \<open>async with connection_lock\<close>.\<close>

definition locked_body :: "'s env \<Rightarrow> nat \<Rightarrow> 's world \<Rightarrow> exn option \<times> 's world" where
  "locked_body env t w =
     (let w1 = (if client w = None then w\<lparr>client := Some (new_client env)\<rparr> else w)
      in case initial_connect env t w1 of
           (Some e, w2) \<Rightarrow> (Some e, w2)
         | (None, w2) \<Rightarrow> check_alive env t w2)"

text \<open>The lock is released on every way out of the block.\<close>

definition ensure_connection :: "'s env \<Rightarrow> nat \<Rightarrow> 's world \<Rightarrow> exn option \<times> 's world" where
  "ensure_connection env t w =
     (let (r, w') = locked_body env t (emit Acquire w)
      in (r, emit Release w'))"

text \<open>
  Callers that start together: each runs the whole body under the lock, so the bodies run
  one after the other, in the order in which the lock is granted. The list holds the clock
  reading of each caller, the result what each caller gets.
\<close>

fun ensure_all :: "'s env \<Rightarrow> nat list \<Rightarrow> 's world \<Rightarrow> exn option list \<times> 's world" where
  "ensure_all env [] w = ([], w)"
| "ensure_all env (t # ts) w =
     (let (r, w') = ensure_connection env t w;
          (rs, w'') = ensure_all env ts w'
      in (r # rs, w''))"

subsection \<open>\<open>connection_keeper\<close>\<close>

text \<open>
  The \<open>try\<close> block of one round. \<open>client and await client.check_connect()\<close> is
  false when \<open>client\<close> is \<open>None\<close>, and the probe is not made then.
\<close>

definition keeper_try :: "'s env \<Rightarrow> 's world \<Rightarrow> exn option \<times> 's world" where
  "keeper_try env w =
     (if connected w then
        (case client w of
           None \<Rightarrow> (None, set_connected False w)
         | Some s \<Rightarrow>
             (case do_check env w of
                (Inl e, w') \<Rightarrow> (Some e, w')
              | (Inr alive, w') \<Rightarrow>
                  if alive then (None, w') else (None, set_connected False w')))
      else (None, w))"

text \<open>
  One round: the \<open>try\<close> block, its handler \<open>except Exception\<close>, and the sleep. The
  first component is the exception that leaves the round, if one does.
\<close>

definition keeper_tick :: "'s env \<Rightarrow> 's world \<Rightarrow> exn option \<times> 's world" where
  "keeper_tick env w =
     (case keeper_try env w of
        (Some e, w') \<Rightarrow> (None, emit Sleep (set_connected False w'))
      | (None, w') \<Rightarrow> (None, emit Sleep w'))"

text \<open>
  \<open>while True: ...\<close> does not end by itself; the task is cancelled when the process
  stops. The first argument is the number of rounds until then. An exception leaving a
  round would end the loop.
\<close>

fun connection_keeper :: "nat \<Rightarrow> 's env \<Rightarrow> 's world \<Rightarrow> exn option \<times> 's world" where
  "connection_keeper 0 env w = (None, w)"
| "connection_keeper (Suc n) env w =
     (case keeper_tick env w of
        (Some e, w') \<Rightarrow> (Some e, w')
      | (None, w') \<Rightarrow> connection_keeper n env w')"

subsection \<open>Runs of the server\<close>

text \<open>The states that calls of \<open>ensure_connection\<close> and rounds of the keeper lead to.\<close>

inductive reachable :: "'s env \<Rightarrow> 's world \<Rightarrow> bool" for env :: "'s env" where
  start: "reachable env initial_world"
| ensure: "reachable env w \<Longrightarrow> reachable env (snd (ensure_connection env t w))"
| tick: "reachable env w \<Longrightarrow> reachable env (snd (keeper_tick env w))"

text \<open>
  Every store into \<open>connection_status\<close> happens while the lock is held: the first
  argument says whether it is held before the events.
\<close>

fun guarded :: "bool \<Rightarrow> event list \<Rightarrow> bool" where
  "guarded h [] = True"
| "guarded h (Acquire # es) = guarded True es"
| "guarded h (Release # es) = guarded False es"
| "guarded h (Status_write # es) = (h \<and> guarded h es)"
| "guarded h (Connect # es) = guarded h es"
| "guarded h (Check_connect # es) = guarded h es"
| "guarded h (Sleep # es) = guarded h es"

text \<open>Session libraries for running the manager on concrete inputs.\<close>

definition env_up :: "unit env" where
  "env_up = \<lparr>new_client = (), client_connect = (\<lambda>s. (Inr (True, ''ok''), s)),
             client_check_connect = (\<lambda>s. (Inr True, s))\<rparr>"

definition env_down :: "unit env" where
  "env_down = \<lparr>new_client = (), client_connect = (\<lambda>s. (Inr (False, ''down''), s)),
               client_check_connect = (\<lambda>s. (Inr True, s))\<rparr>"

definition env_lost :: "unit env" where
  "env_lost = \<lparr>new_client = (), client_connect = (\<lambda>s. (Inr (True, ''ok''), s)),
               client_check_connect = (\<lambda>s. (Inr False, s))\<rparr>"

definition env_broken :: "unit env" where
  "env_broken = \<lparr>new_client = (), client_connect = (\<lambda>s. (Inr (True, ''ok''), s)),
                 client_check_connect = (\<lambda>s. (Inl (Raised ''socket closed''), s))\<rparr>"

text \<open>
  The state counts the \<open>connect()\<close> calls. The second one reports a failure, the
  others succeed; every probe reports a dead session.
\<close>

definition env_script :: "nat env" where
  "env_script =
     \<lparr>new_client = 0,
      client_connect = (\<lambda>n. (if n = 1 then Inr (False, ''down'') else Inr (True, ''ok''), Suc n)),
      client_check_connect = (\<lambda>n. (Inr False, n))\<rparr>"

text \<open>A state in which the server is connected.\<close>

definition world_live :: "unit world" where
  "world_live =
     \<lparr>client = Some (), connected = True, last_error = None,
      last_connected = Some 1, last_connection_time = Some 1, log = []\<rparr>"

text \<open>
  The same with an error text stored. It is given directly: no run from the initial state
  leads to a connected state with an error text.
\<close>

definition world_stale :: "unit world" where
  "world_stale = world_live\<lparr>last_error := Some [Lit ''down'']\<rparr>"

section \<open>Properties of the progressive candle endpoint\<close>

subsection \<open>One round of the loop\<close>

lemma loop_Cons_cases:
  obtains (fail) e s' where "gc (next_call a p st) (session st) = (Inl e, s')"
      and "progressive_loop gc a p sz (i # js) st
            = (Some e, st\<lparr>session := s', issued := issued st @ [(next_call a p st, Inl e)]\<rparr>)"
  | (ok) cs s' st4 where "gc (next_call a p st) (session st) = (Inr cs, s')"
      and "progressive_loop gc a p sz (i # js) st = progressive_loop gc a p sz js st4"
      and "issued st4 = issued st @ [(next_call a p st, Inr cs)]"
      and "offset_now st4 = (if i \<ge> sz then offset_now st * 2 else offset_now st)"
      and "end_from_time st4 = end_from_time st + offset_now st4"
      and "session st4 = s'"
      and "list_candles st4 = list_candles st @ candles_of cs"
proof -
  define c where "c = next_call a p st"
  obtain r s' where g: "gc c (session st) = (r, s')"
    by (cases "gc c (session st)")
  show thesis
  proof (cases r)
    case (Inl e)
    with g show thesis
      by (intro fail [of e s']) (simp_all add: c_def)
  next
    case (Inr cs)
    define st1 where "st1 = st\<lparr>session := s', issued := issued st @ [(c, Inr cs)]\<rparr>"
    define st2 where "st2 = (if truthy cs
                         then st1\<lparr>list_candles := list_candles st1 @ candles_of cs\<rparr>
                         else st1)"
    define st3 where "st3 = (if i \<ge> sz then st2\<lparr>offset_now := offset_now st2 * 2\<rparr> else st2)"
    define st4 where "st4 = st3\<lparr>end_from_time := end_from_time st3 + offset_now st3\<rparr>"
    have lc: "list_candles st2 = list_candles st @ candles_of cs"
      by (cases cs) (simp_all add: st2_def st1_def)
    show thesis
    proof (rule ok [of cs s' st4])
      show "gc (next_call a p st) (session st) = (Inr cs, s')" using g Inr by (simp add: c_def)
      show "progressive_loop gc a p sz (i # js) st = progressive_loop gc a p sz js st4"
        using g Inr by (simp add: c_def st4_def st3_def st2_def st1_def Let_def)
      show "issued st4 = issued st @ [(next_call a p st, Inr cs)]"
        by (simp add: st4_def st3_def st2_def st1_def c_def)
      show "offset_now st4 = (if i \<ge> sz then offset_now st * 2 else offset_now st)"
        by (simp add: st4_def st3_def st2_def st1_def)
      show "end_from_time st4 = end_from_time st + offset_now st4"
        by (simp add: st4_def st3_def st2_def st1_def)
      show "session st4 = s'"
        by (simp add: st4_def st3_def st2_def st1_def)
      show "list_candles st4 = list_candles st @ candles_of cs"
        using lc by (simp add: st4_def st3_def)
    qed
  qed
qed

lemma loop_issued_length:
  "length (issued st) \<le> length (issued (snd (progressive_loop gc a p sz js st)))"
proof (induction js arbitrary: st)
  case Nil
  show ?case by simp
next
  case (Cons i js)
  show ?case
  proof (cases rule: loop_Cons_cases [where gc=gc and a=a and p=p and st=st and sz=sz and i=i and js=js])
    case (fail e s')
    then show ?thesis by simp
  next
    case (ok cs s' st4)
    from Cons.IH [of st4] ok(2,3) show ?thesis by simp
  qed
qed

lemma loop_issued_old:
  "j < length (issued st) \<Longrightarrow>
     issued (snd (progressive_loop gc a p sz js st)) ! j = issued st ! j"
proof (induction js arbitrary: st)
  case Nil
  show ?case by simp
next
  case (Cons i js)
  show ?case
  proof (cases rule: loop_Cons_cases [where gc=gc and a=a and p=p and st=st and sz=sz and i=i and js=js])
    case (fail e s')
    with Cons.prems show ?thesis by (simp add: nth_append)
  next
    case (ok cs s' st4)
    from Cons.prems ok(3) have "j < length (issued st4)" by simp
    from Cons.IH [OF this] ok(2,3) Cons.prems show ?thesis by (simp add: nth_append)
  qed
qed

lemma loop_issued_new:
  assumes "\<forall>i\<in>set js. i < sz"
    and "length (issued st) \<le> j"
    and "j < length (issued (snd (progressive_loop gc a p sz js st)))"
  shows "fst (issued (snd (progressive_loop gc a p sz js st)) ! j)
          = \<lparr>arg_asset = a,
             arg_end_time = end_from_time st + int (j - length (issued st)) * offset_now st,
             arg_offset = offset_now st, arg_period = p, arg_progressive = True\<rparr>"
  using assms
proof (induction js arbitrary: st)
  case Nil
  then show ?case by simp
next
  case (Cons i js)
  from Cons.prems(1) have i: "i < sz" and rest: "\<forall>i\<in>set js. i < sz" by simp_all
  show ?case
  proof (cases rule: loop_Cons_cases [where gc=gc and a=a and p=p and st=st and sz=sz and i=i and js=js])
    case (fail e s')
    with Cons.prems(2,3) have "j = length (issued st)" by simp
    with fail show ?thesis by (simp add: next_call_def)
  next
    case (ok cs s' st4)
    have off: "offset_now st4 = offset_now st" using ok(4) i by simp
    have eft: "end_from_time st4 = end_from_time st + offset_now st" using ok(5) off by simp
    show ?thesis
    proof (cases "j = length (issued st)")
      case True
      then have "j < length (issued st4)" using ok(3) by simp
      from loop_issued_old [OF this, of gc a p sz js] ok(2,3) True show ?thesis
        by (simp add: next_call_def)
    next
      case False
      with Cons.prems(2) ok(3) have le: "length (issued st4) \<le> j" by simp
      have lt: "j < length (issued (snd (progressive_loop gc a p sz js st4)))"
        using Cons.prems(3) ok(2) by simp
      have h: "int (j - length (issued st)) = int (j - length (issued st4)) + 1"
        using le ok(3) by simp
      have "end_from_time st4 + int (j - length (issued st4)) * offset_now st
                  = end_from_time st + int (j - length (issued st)) * offset_now st"
        by (simp only: h eft algebra_simps)
      with Cons.IH [OF rest le lt] ok(2) off show ?thesis by simp
    qed
  qed
qed

lemma loop_all_ok:
  assumes "\<forall>c s. \<not> isl (fst (gc c s))"
  shows "fst (progressive_loop gc a p sz js st) = None
       \<and> length (issued (snd (progressive_loop gc a p sz js st))) = length (issued st) + length js"
proof (induction js arbitrary: st)
  case Nil
  show ?case by simp
next
  case (Cons i js)
  show ?case
  proof (cases rule: loop_Cons_cases [where gc=gc and a=a and p=p and st=st and sz=sz and i=i and js=js])
    case (fail e s')
    with assms have False by (metis fst_conv sum.disc(1))
    then show ?thesis ..
  next
    case (ok cs s' st4)
    from Cons.IH [of st4] ok(2,3) show ?thesis by simp
  qed
qed

lemma loop_raised_last:
  "fst (progressive_loop gc a p sz js st) = Some e \<Longrightarrow>
     length (issued st) < length (issued (snd (progressive_loop gc a p sz js st)))
   \<and> snd (last (issued (snd (progressive_loop gc a p sz js st)))) = Inl e"
proof (induction js arbitrary: st)
  case Nil
  then show ?case by simp
next
  case (Cons i js)
  show ?case
  proof (cases rule: loop_Cons_cases [where gc=gc and a=a and p=p and st=st and sz=sz and i=i and js=js])
    case (fail e' s')
    with Cons.prems show ?thesis by simp
  next
    case (ok cs s' st4)
    from Cons.prems ok(2) have "fst (progressive_loop gc a p sz js st4) = Some e" by simp
    from Cons.IH [OF this] ok(2,3) show ?thesis by simp
  qed
qed

lemma loop_inner_ok:
  "length (issued st) \<le> j \<Longrightarrow>
   Suc j < length (issued (snd (progressive_loop gc a p sz js st))) \<Longrightarrow>
     \<not> isl (snd (issued (snd (progressive_loop gc a p sz js st)) ! j))"
proof (induction js arbitrary: st)
  case Nil
  then show ?case by simp
next
  case (Cons i js)
  show ?case
  proof (cases rule: loop_Cons_cases [where gc=gc and a=a and p=p and st=st and sz=sz and i=i and js=js])
    case (fail e' s')
    with Cons.prems show ?thesis by simp
  next
    case (ok cs s' st4)
    show ?thesis
    proof (cases "j = length (issued st)")
      case True
      then have "j < length (issued st4)" using ok(3) by simp
      from loop_issued_old [OF this, of gc a p sz js] ok(2,3) True show ?thesis by simp
    next
      case False
      with Cons.prems(1) ok(3) have le: "length (issued st4) \<le> j" by simp
      have lt: "Suc j < length (issued (snd (progressive_loop gc a p sz js st4)))"
        using Cons.prems(2) ok(2) by simp
      from Cons.IH [OF le lt] ok(2) show ?thesis by simp
    qed
  qed
qed

lemma loop_returned_ok:
  "fst (progressive_loop gc a p sz js st) = None \<Longrightarrow>
   length (issued st) \<le> j \<Longrightarrow>
   j < length (issued (snd (progressive_loop gc a p sz js st))) \<Longrightarrow>
     \<not> isl (snd (issued (snd (progressive_loop gc a p sz js st)) ! j))"
proof (induction js arbitrary: st)
  case Nil
  then show ?case by simp
next
  case (Cons i js)
  show ?case
  proof (cases rule: loop_Cons_cases [where gc=gc and a=a and p=p and st=st and sz=sz and i=i and js=js])
    case (fail e' s')
    with Cons.prems show ?thesis by simp
  next
    case (ok cs s' st4)
    have none: "fst (progressive_loop gc a p sz js st4) = None" using Cons.prems(1) ok(2) by simp
    show ?thesis
    proof (cases "j = length (issued st)")
      case True
      then have "j < length (issued st4)" using ok(3) by simp
      from loop_issued_old [OF this, of gc a p sz js] ok(2,3) True show ?thesis by simp
    next
      case False
      with Cons.prems(2) ok(3) have le: "length (issued st4) \<le> j" by simp
      have lt: "j < length (issued (snd (progressive_loop gc a p sz js st4)))"
        using Cons.prems(3) ok(2) by simp
      from Cons.IH [OF none le lt] ok(2) show ?thesis by simp
    qed
  qed
qed

subsection \<open>The dictionary of candles\<close>

lemma dict_set_mem:
  "distinct (map fst m) \<Longrightarrow>
     (a, b) \<in> set (dict_set m k v) \<longleftrightarrow> (a = k \<and> b = v) \<or> (a \<noteq> k \<and> (a, b) \<in> set m)"
proof (induction m)
  case Nil
  show ?case by auto
next
  case (Cons x m)
  obtain k' v' where x: "x = (k', v')" by (cases x)
  from Cons.prems x have d: "distinct (map fst m)" and nk: "k' \<notin> fst ` set m" by simp_all
  have nk': "(k', b) \<notin> set m"
  proof
    assume "(k', b) \<in> set m"
    then have "fst (k', b) \<in> fst ` set m" by (rule imageI)
    with nk show False by simp
  qed
  show ?case
  proof (cases "k' = k")
    case True
    with x nk' show ?thesis by auto
  next
    case False
    with x Cons.IH [OF d] show ?thesis by auto
  qed
qed

lemma dict_set_keys:
  "map fst (dict_set m k v) = (if k \<in> fst ` set m then map fst m else map fst m @ [k])"
proof (induction m)
  case Nil
  show ?case by simp
next
  case (Cons x m)
  obtain k' v' where x: "x = (k', v')" by (cases x)
  show ?case
  proof (cases "k' = k")
    case True
    then show ?thesis using x by simp
  next
    case False
    then have "k \<noteq> k'" by simp
    then show ?thesis using x Cons.IH False by simp
  qed
qed

lemma dict_set_distinct: "distinct (map fst m) \<Longrightarrow> distinct (map fst (dict_set m k v))"
  by (simp add: dict_set_keys)

lemma candle_key_inj: "candle_key c = candle_key d \<longleftrightarrow> c = d"
  by (cases c, cases d) (simp add: candle_key_def)

lemma keyed_dict_set:
  assumes "keyed m"
  shows "keyed (dict_set m (candle_key d) d)"
proof -
  from assms have dm: "distinct (map fst m)" and km: "\<forall>x\<in>set m. fst x = candle_key (snd x)"
    by (simp_all add: keyed_def)
  have "fst x = candle_key (snd x)" if "x \<in> set (dict_set m (candle_key d) d)" for x
  proof -
    obtain a b where x: "x = (a, b)" by (cases x)
    with that dict_set_mem [OF dm, of a b "candle_key d" d]
    have "(a = candle_key d \<and> b = d) \<or> (a, b) \<in> set m" by blast
    then show ?thesis
    proof
      assume "a = candle_key d \<and> b = d"
      with x show ?thesis by simp
    next
      assume "(a, b) \<in> set m"
      with km x show ?thesis by fastforce
    qed
  qed
  then have "\<forall>x\<in>set (dict_set m (candle_key d) d). fst x = candle_key (snd x)" by blast
  with dict_set_distinct [OF dm] show ?thesis by (simp add: keyed_def)
qed

lemma keyed_values:
  assumes k: "keyed m"
  shows "snd ` set (dict_set m (candle_key d) d) = insert d (snd ` set m)"
proof (intro set_eqI iffI)
  from k have dm: "distinct (map fst m)" by (simp add: keyed_def)
  fix y assume "y \<in> snd ` set (dict_set m (candle_key d) d)"
  then obtain a where "(a, y) \<in> set (dict_set m (candle_key d) d)" by force
  with dict_set_mem [OF dm, of a y "candle_key d" d]
  have "y = d \<or> (a, y) \<in> set m" by blast
  then show "y \<in> insert d (snd ` set m)" by force
next
  from k have dm: "distinct (map fst m)" by (simp add: keyed_def)
  fix y assume y: "y \<in> insert d (snd ` set m)"
  show "y \<in> snd ` set (dict_set m (candle_key d) d)"
  proof (cases "y = d")
    case True
    from dict_set_mem [OF dm, of "candle_key d" d "candle_key d" d]
    have "(candle_key d, d) \<in> set (dict_set m (candle_key d) d)" by simp
    then have "snd (candle_key d, d) \<in> snd ` set (dict_set m (candle_key d) d)" by (rule imageI)
    with True show ?thesis by simp
  next
    case False
    with y obtain a where a: "(a, y) \<in> set m" by force
    with k have "a = candle_key y" by (fastforce simp: keyed_def)
    with False have "a \<noteq> candle_key d" by (simp add: candle_key_inj)
    with a dict_set_mem [OF dm, of a y "candle_key d" d]
    have "(a, y) \<in> set (dict_set m (candle_key d) d)" by simp
    then have "snd (a, y) \<in> snd ` set (dict_set m (candle_key d) d)" by (rule imageI)
    then show ?thesis by simp
  qed
qed

lemma keyed_foldl:
  "keyed m \<Longrightarrow> keyed (foldl (\<lambda>m d. dict_set m (candle_key d) d) m xs)
     \<and> snd ` set (foldl (\<lambda>m d. dict_set m (candle_key d) d) m xs) = snd ` set m \<union> set xs"
proof (induction xs arbitrary: m)
  case Nil
  then show ?case by simp
next
  case (Cons x xs)
  from Cons.prems have k: "keyed (dict_set m (candle_key x) x)" by (rule keyed_dict_set)
  from Cons.IH [OF k] keyed_values [OF Cons.prems, of x] show ?case by simp
qed

lemma keyed_distinct_values:
  assumes k: "keyed m"
  shows "distinct (map snd m)"
proof -
  have "inj_on snd (set m)"
  proof (rule inj_onI)
    fix x y assume "x \<in> set m" "y \<in> set m" and e: "snd x = snd y"
    with k have "fst x = fst y" by (simp add: keyed_def)
    with e show "x = y" by (simp add: prod_eq_iff)
  qed
  moreover from k have "distinct m" by (simp add: keyed_def distinct_map)
  ultimately show ?thesis by (simp add: distinct_map)
qed

lemma unique_candles_once: "distinct (unique_candles xs) \<and> set (unique_candles xs) = set xs"
proof -
  have "keyed ([] :: ((int \<times> 'a \<times> 'a \<times> 'a \<times> 'a \<times> int) \<times> 'a candle) list)"
    by (simp add: keyed_def)
  from keyed_foldl [OF this, of xs] show ?thesis
    by (simp add: unique_candles_def keyed_distinct_values)
qed

subsection \<open>The handler and its loop\<close>

lemma range_below: "\<forall>i\<in>set [0..sz - 1]. i < (sz::int)"
  by simp

lemma gcp_no_run:
  "period request = 0 \<or> offset request = None \<Longrightarrow>
     fst (snd (get_candles_progressive gc T s request)) = []"
  by (auto simp: get_candles_progressive_def try_body_def Let_def)

lemma gcp_run_issued:
  assumes "period request \<noteq> 0" and "offset request = Some off"
  shows "fst (snd (get_candles_progressive gc T s request))
          = issued (snd (progressive_loop gc (asset request) (period request) (days request * 24)
                          [0..days request * 24 - 1] (loop_start s T (period request) off)))"
  using assms
  by (simp add: get_candles_progressive_def try_body_def Let_def
           split: prod.splits option.splits)

lemma gcp_run_result:
  assumes "period request \<noteq> 0" and "offset request = Some off"
    and "fst (progressive_loop gc (asset request) (period request) (days request * 24)
                [0..days request * 24 - 1] (loop_start s T (period request) off)) = Some e"
  shows "fst (get_candles_progressive gc T s request) = Inl (HTTPException 500 [Str e])"
proof -
  obtain ex st where L: "progressive_loop gc (asset request) (period request) (days request * 24)
                [0..days request * 24 - 1] (loop_start s T (period request) off) = (ex, st)"
    by (cases "progressive_loop gc (asset request) (period request) (days request * 24)
                [0..days request * 24 - 1] (loop_start s T (period request) off)")
  with assms(3) have "ex = Some e" by simp
  with L assms(1,2) show ?thesis
    by (simp add: get_candles_progressive_def try_body_def Let_def)
qed

lemma gcp_call:
  assumes "offset request = Some off"
    and "i < length (fetch_calls (get_candles_progressive gc T s request))"
  shows "fetch_calls (get_candles_progressive gc T s request) ! i
          = \<lparr>arg_asset = asset request,
             arg_end_time = (T - T mod period request) + off + int i * off,
             arg_offset = off, arg_period = period request, arg_progressive = True\<rparr>"
proof -
  let ?tr = "fst (snd (get_candles_progressive gc T s request))"
  from assms(2) have i: "i < length ?tr" by (simp add: fetch_calls_def)
  then have "?tr \<noteq> []" by auto
  with gcp_no_run [of request gc T s] assms(1) have p: "period request \<noteq> 0" by auto
  let ?st0 = "loop_start s T (period request) off"
  let ?L = "progressive_loop gc (asset request) (period request) (days request * 24)
              [0..days request * 24 - 1] ?st0"
  have tr: "?tr = issued (snd ?L)" by (rule gcp_run_issued [OF p assms(1)])
  have "fst (issued (snd ?L) ! i)
          = \<lparr>arg_asset = asset request,
             arg_end_time = (T - T mod period request) + off + int i * off,
             arg_offset = off, arg_period = period request, arg_progressive = True\<rparr>"
    using loop_issued_new [where js = "[0..days request * 24 - 1]" and sz = "days request * 24"
            and st = "loop_start s T (period request) off" and j = i and gc = gc
            and a = "asset request" and p = "period request"] i tr
    by (simp add: loop_start_def)
  then show ?thesis using i tr by (simp add: fetch_calls_def loop_start_def)
qed

subsection \<open>What the handler returns\<close>

lemma fetched_snoc:
  "fetched (rs @ [r]) = fetched rs @ (case r of Inl e \<Rightarrow> [] | Inr cs \<Rightarrow> candles_of cs)"
  by (simp add: fetched_def)

lemma loop_list_candles:
  "list_candles st = fetched (map snd (issued st)) \<Longrightarrow>
     list_candles (snd (progressive_loop gc a p sz js st))
       = fetched (map snd (issued (snd (progressive_loop gc a p sz js st))))"
proof (induction js arbitrary: st)
  case Nil
  then show ?case by simp
next
  case (Cons i js)
  show ?case
  proof (cases rule: loop_Cons_cases [where gc=gc and a=a and p=p and st=st and sz=sz and i=i and js=js])
    case (fail e s')
    with Cons.prems show ?thesis by (simp add: fetched_snoc)
  next
    case (ok cs s' st4)
    from ok(3,7) Cons.prems have "list_candles st4 = fetched (map snd (issued st4))"
      by (simp add: fetched_snoc)
    from Cons.IH [OF this] ok(2) show ?thesis by simp
  qed
qed

lemma gcp_returned:
  assumes "fetch_result (get_candles_progressive gc T s request) = Inr resp"
  shows "r_candles resp
           = unique_candles (fetched (fetch_outcomes (get_candles_progressive gc T s request)))
       \<and> r_count resp = length (r_candles resp)"
proof -
  from assms have p: "period request \<noteq> 0"
    by (auto simp: fetch_result_def get_candles_progressive_def try_body_def Let_def)
  from assms p obtain off where off: "offset request = Some off"
    by (cases "offset request")
       (auto simp: fetch_result_def get_candles_progressive_def try_body_def Let_def)
  obtain ex st where L: "progressive_loop gc (asset request) (period request) (days request * 24)
                [0..days request * 24 - 1] (loop_start s T (period request) off) = (ex, st)"
    by (cases "progressive_loop gc (asset request) (period request) (days request * 24)
                [0..days request * 24 - 1] (loop_start s T (period request) off)")
  have "list_candles st = fetched (map snd (issued st))"
    using loop_list_candles [where gc = gc and a = "asset request" and p = "period request"
            and sz = "days request * 24" and js = "[0..days request * 24 - 1]"
            and st = "loop_start s T (period request) off"] L
    by (simp add: loop_start_def fetched_def)
  moreover from assms p off L have "ex = None"
    by (cases ex)
       (auto simp: fetch_result_def get_candles_progressive_def try_body_def Let_def)
  ultimately show ?thesis using assms p off L
    by (auto simp: fetch_result_def fetch_outcomes_def get_candles_progressive_def
          try_body_def Let_def)
qed

subsection \<open>The statements about the endpoint\<close>

text \<open>
  C2. In every run of the handler, whatever the session client answers, each retrieval
  call is made with the offset of the request: the test \<open>i >= size\<close> never holds for an
  index of \<open>range(size)\<close>, so \<open>request.offset\<close> is never doubled.
\<close>

theorem offset_never_doubles:
  "\<forall>c\<in>set (fetch_calls (get_candles_progressive gc T s request)).
      Some (arg_offset c) = offset request"
proof
  fix c assume "c \<in> set (fetch_calls (get_candles_progressive gc T s request))"
  then obtain i where i: "i < length (fetch_calls (get_candles_progressive gc T s request))"
    and c: "c = fetch_calls (get_candles_progressive gc T s request) ! i"
    by (auto simp: in_set_conv_nth)
  then have "fst (snd (get_candles_progressive gc T s request)) \<noteq> []"
    by (auto simp: fetch_calls_def)
  with gcp_no_run [of request gc T s] obtain off where off: "offset request = Some off"
    by (cases "offset request") auto
  from gcp_call [OF off i] c off show "Some (arg_offset c) = offset request" by simp
qed

theorem offset_never_doubles_witness:
  "length (fetch_calls (get_candles_progressive always_empty 1700000000 () request_1)) = 24
   \<and> arg_offset (fetch_calls (get_candles_progressive always_empty 1700000000 () request_1) ! 23)
        = 3600"
proof -
  have len: "length (fetch_calls (get_candles_progressive always_empty 1700000000 () request_1)) = 24"
    by code_simp
  then have "fetch_calls (get_candles_progressive always_empty 1700000000 () request_1) ! 23
      \<in> set (fetch_calls (get_candles_progressive always_empty 1700000000 () request_1))"
    by simp
  with offset_never_doubles [of always_empty 1700000000 "()" request_1] len show ?thesis
    by (simp add: request_1_def)
qed

text \<open>
  C3, as amended. When the period is not zero, the offset is given and no retrieval call
  raises, the handler makes as many retrieval calls as \<open>range(days * 24)\<close> has indices:
  \<open>days * 24\<close> for \<open>days \<ge> 0\<close> (24 for one day, none for zero days) and none for
  negative \<open>days\<close>.
\<close>

theorem call_count:
  assumes "period request \<noteq> 0" and "offset request = Some off"
    and "\<forall>c s. \<not> isl (fst (gc c s))"
  shows "length (fetch_calls (get_candles_progressive gc T s request)) = nat (days request * 24)
       \<and> (days request = 1 \<longrightarrow> length (fetch_calls (get_candles_progressive gc T s request)) = 24)
       \<and> (days request = 0 \<longrightarrow> length (fetch_calls (get_candles_progressive gc T s request)) = 0)"
proof -
  have "length (fetch_calls (get_candles_progressive gc T s request))
          = length [0..days request * 24 - 1]"
    using loop_all_ok [OF assms(3), where a = "asset request" and p = "period request"
            and sz = "days request * 24" and js = "[0..days request * 24 - 1]"
            and st = "loop_start s T (period request) off"]
    by (simp add: fetch_calls_def gcp_run_issued [OF assms(1,2)] loop_start_def)
  then have "length (fetch_calls (get_candles_progressive gc T s request)) = nat (days request * 24)"
    by simp
  then show ?thesis by simp
qed

theorem call_count_witness:
  "period request_1 \<noteq> 0 \<and> offset request_1 = Some 3600
   \<and> (\<forall>c s. \<not> isl (fst (always_empty c s)))
   \<and> length (fetch_calls (get_candles_progressive always_empty 1700000000 () request_1)) = 24"
proof -
  have p: "period request_1 \<noteq> 0" and off: "offset request_1 = Some 3600"
    by (simp_all add: request_1_def)
  have ok: "\<forall>c s. \<not> isl (fst (always_empty c s))"
    by (simp add: always_empty_def)
  from call_count [OF p off ok, of 1700000000 "()"] p off ok show ?thesis
    by (simp add: request_1_def)
qed

text \<open>
  C3, as stated, fails: for a request of one day with the period 0 the handler raises
  before the loop and makes no retrieval call, where \<open>days * 24\<close> is 24.
\<close>

theorem call_count_counterexample:
  "length (fetch_calls (get_candles_progressive always_empty 1700000000 ()
             (request_1\<lparr>period := 0\<rparr>))) = 0
   \<and> days (request_1\<lparr>period := 0\<rparr>) * 24 = 24
   \<and> fetch_result (get_candles_progressive always_empty 1700000000 ()
             (request_1\<lparr>period := 0\<rparr>)) = Inl (HTTPException 500 [Str ZeroDivisionError])"
  by code_simp

text \<open>
  C4. The dictionary key of a candle is equal for two candles exactly if they agree on all
  six fields, that is, if they are the same candle; the list without duplicates holds
  every candle of the accumulated list, each once; and what the handler returns is that
  list for the candles its retrieval calls returned, with its length as the count.
\<close>

theorem dedup_full_field:
  "(candle_key c = candle_key d \<longleftrightarrow>
      c_time c = c_time d \<and> c_open c = c_open d \<and> c_close c = c_close d
      \<and> c_high c = c_high d \<and> c_low c = c_low d \<and> c_volume c = c_volume d)
   \<and> (candle_key c = candle_key d \<longleftrightarrow> c = d)
   \<and> distinct (unique_candles xs) \<and> set (unique_candles xs) = set xs
   \<and> (fetch_result (get_candles_progressive gc T s request) = Inr resp \<longrightarrow>
        r_candles resp
          = unique_candles (fetched (fetch_outcomes (get_candles_progressive gc T s request)))
        \<and> r_count resp = length (r_candles resp)
        \<and> distinct (r_candles resp)
        \<and> set (r_candles resp)
            = set (fetched (fetch_outcomes (get_candles_progressive gc T s request))))"
proof -
  have "fetch_result (get_candles_progressive gc T s request) = Inr resp \<longrightarrow>
        r_candles resp
          = unique_candles (fetched (fetch_outcomes (get_candles_progressive gc T s request)))
        \<and> r_count resp = length (r_candles resp)
        \<and> distinct (r_candles resp)
        \<and> set (r_candles resp)
            = set (fetched (fetch_outcomes (get_candles_progressive gc T s request)))"
    using gcp_returned [of gc T s request resp]
      unique_candles_once [of "fetched (fetch_outcomes (get_candles_progressive gc T s request))"]
    by simp
  moreover have "candle_key c = candle_key d \<longleftrightarrow>
      c_time c = c_time d \<and> c_open c = c_open d \<and> c_close c = c_close d
      \<and> c_high c = c_high d \<and> c_low c = c_low d \<and> c_volume c = c_volume d"
    by (simp add: candle_key_def)
  moreover note unique_candles_once [of xs] candle_key_inj [of c d]
  ultimately show ?thesis by blast
qed

theorem dedup_full_field_witness:
  "candle_key candle_a \<noteq> candle_key candle_b
   \<and> distinct (unique_candles [candle_a, candle_b, candle_a])
   \<and> set (unique_candles [candle_a, candle_b, candle_a]) = {candle_a, candle_b}
   \<and> length (fetched (fetch_outcomes
         (get_candles_progressive always_pair 1700000000 () request_1))) = 72
   \<and> fetch_result (get_candles_progressive always_pair 1700000000 () request_1)
        = Inr \<lparr>r_asset = ''EURUSD_otc'', r_period = 60, r_days = 1, r_count = 2,
                r_candles = [candle_a, candle_b]\<rparr>
   \<and> unique_candles (fetched (fetch_outcomes
         (get_candles_progressive always_pair 1700000000 () request_1)))
        = [candle_a, candle_b]"
proof -
  have ne: "candle_key candle_a \<noteq> candle_key candle_b"
    by (simp add: candle_a_def candle_b_def candle_key_def)
  have n: "length (fetched (fetch_outcomes
         (get_candles_progressive always_pair 1700000000 () request_1))) = 72"
    by code_simp
  have r: "fetch_result (get_candles_progressive always_pair 1700000000 () request_1)
        = Inr \<lparr>r_asset = ''EURUSD_otc'', r_period = 60, r_days = 1, r_count = 2,
                r_candles = [candle_a, candle_b]\<rparr>"
    by code_simp
  from dedup_full_field [of candle_a candle_b "[candle_a, candle_b, candle_a]"
      always_pair 1700000000 "()" request_1
      "\<lparr>r_asset = ''EURUSD_otc'', r_period = 60, r_days = 1, r_count = 2,
        r_candles = [candle_a, candle_b]\<rparr>"] ne n r
  show ?thesis by auto
qed

text \<open>
  C5, as amended. If the retrieval call of the round \<open>i\<close> raises \<open>e\<close>, the handler
  makes no further call and raises \<open>HTTPException(status_code=500, detail=str(e))\<close>; it
  returns no candle. The exception holds the text of the cause and not the index of the
  round.
\<close>

theorem fetch_failure:
  assumes "i < length (fetch_outcomes (get_candles_progressive gc T s request))"
    and "fetch_outcomes (get_candles_progressive gc T s request) ! i = Inl e"
  shows "fetch_result (get_candles_progressive gc T s request) = Inl (HTTPException 500 [Str e])
       \<and> length (fetch_calls (get_candles_progressive gc T s request)) = Suc i"
proof -
  let ?tr = "fst (snd (get_candles_progressive gc T s request))"
  from assms have i: "i < length ?tr" and f: "snd (?tr ! i) = Inl e"
    by (simp_all add: fetch_outcomes_def)
  then have "?tr \<noteq> []" by auto
  with gcp_no_run [of request gc T s] obtain off
    where p: "period request \<noteq> 0" and off: "offset request = Some off"
    by (cases "offset request") auto
  let ?L = "progressive_loop gc (asset request) (period request) (days request * 24)
              [0..days request * 24 - 1] (loop_start s T (period request) off)"
  have tr: "?tr = issued (snd ?L)" by (rule gcp_run_issued [OF p off])
  have isl: "isl (snd (issued (snd ?L) ! i))" using f tr by simp
  have last: "\<not> Suc i < length (issued (snd ?L))"
    using loop_inner_ok [where gc = gc and a = "asset request" and p = "period request"
            and sz = "days request * 24" and js = "[0..days request * 24 - 1]"
            and st = "loop_start s T (period request) off" and j = i] isl
    by (auto simp: loop_start_def)
  with i tr have len: "length (issued (snd ?L)) = Suc i" by simp
  have "fst ?L \<noteq> None"
    using loop_returned_ok [where gc = gc and a = "asset request" and p = "period request"
            and sz = "days request * 24" and js = "[0..days request * 24 - 1]"
            and st = "loop_start s T (period request) off" and j = i] i tr isl
    by (auto simp: loop_start_def)
  then obtain e' where e': "fst ?L = Some e'" by auto
  from loop_raised_last [OF e'] have "snd (last (issued (snd ?L))) = Inl e'" by simp
  moreover have "issued (snd ?L) \<noteq> []" using len by auto
  then have "last (issued (snd ?L)) = issued (snd ?L) ! (length (issued (snd ?L)) - 1)"
    by (rule last_conv_nth)
  ultimately have "e' = e" using f tr len by simp
  with e' gcp_run_result [OF p off, of gc s T e] len tr show ?thesis
    by (simp add: fetch_result_def fetch_calls_def)
qed

theorem fetch_failure_witness:
  "12 < length (fetch_outcomes (get_candles_progressive (fail_at 12) 1700000000 0 request_1))
   \<and> fetch_outcomes (get_candles_progressive (fail_at 12) 1700000000 0 request_1) ! 12
        = Inl (Raised ''timeout'')
   \<and> fetch_result (get_candles_progressive (fail_at 12) 1700000000 0 request_1)
        = Inl (HTTPException 500 [Str (Raised ''timeout'')])
   \<and> length (fetch_calls (get_candles_progressive (fail_at 12) 1700000000 0 request_1)) = 13"
proof -
  have i: "12 < length (fetch_outcomes (get_candles_progressive (fail_at 12) 1700000000 0 request_1))"
    by code_simp
  have f: "fetch_outcomes (get_candles_progressive (fail_at 12) 1700000000 0 request_1) ! 12
             = Inl (Raised ''timeout'')"
    by code_simp
  from fetch_failure [OF i f] i f show ?thesis by simp
qed

text \<open>
  C5, as stated, fails: the exception raised when the first retrieval call fails is the
  one raised when the thirteenth fails, so it does not carry the index of the round.
\<close>

theorem fetch_error_counterexample:
  "fetch_outcomes (get_candles_progressive (fail_at 0) 1700000000 0 request_1) ! 0
        = Inl (Raised ''timeout'')
   \<and> fetch_outcomes (get_candles_progressive (fail_at 12) 1700000000 0 request_1) ! 12
        = Inl (Raised ''timeout'')
   \<and> fetch_result (get_candles_progressive (fail_at 0) 1700000000 0 request_1)
        = Inl (HTTPException 500 [Str (Raised ''timeout'')])
   \<and> fetch_result (get_candles_progressive (fail_at 12) 1700000000 0 request_1)
        = Inl (HTTPException 500 [Str (Raised ''timeout'')])"
  by code_simp

text \<open>
  C6. The retrieval call of the round \<open>i\<close> (from 0) has the end time
  \<open>E0 + i * offset\<close>, where \<open>E0 = (T - T % period) + offset\<close>.
\<close>

theorem end_time_of_call:
  assumes "offset request = Some off"
    and "i < length (fetch_calls (get_candles_progressive gc T s request))"
  shows "arg_end_time (fetch_calls (get_candles_progressive gc T s request) ! i)
          = ((T - T mod period request) + off) + int i * off"
  using gcp_call [OF assms] by simp

theorem end_time_of_call_witness:
  "offset request_1 = Some 3600
   \<and> 13 < length (fetch_calls (get_candles_progressive always_empty 1700000000 () request_1))
   \<and> arg_end_time (fetch_calls (get_candles_progressive always_empty 1700000000 () request_1) ! 13)
        = 1700050380"
proof -
  have off: "offset request_1 = Some 3600" by (simp add: request_1_def)
  have i: "13 < length (fetch_calls (get_candles_progressive always_empty 1700000000 () request_1))"
    by code_simp
  from end_time_of_call [OF off i] off i show ?thesis
    by (simp add: request_1_def)
qed

section \<open>Properties of the connection manager\<close>

subsection \<open>What one call and one round keep\<close>

lemmas status_defs = emit_def set_connected_def set_last_error_def set_last_connected_def
lemmas client_defs = do_connect_def do_check_def


lemma try_connect_inv:
  "(connected w \<longrightarrow> last_connected w \<noteq> None) \<Longrightarrow>
     (connected (snd (try_connect env t w)) \<longrightarrow> last_connected (snd (try_connect env t w)) \<noteq> None)"
  by (auto simp: try_connect_def client_defs status_defs Let_def
           split: prod.splits sum.splits option.splits)

lemma initial_connect_inv:
  "(connected w \<longrightarrow> last_connected w \<noteq> None) \<Longrightarrow>
     (connected (snd (initial_connect env t w))
        \<longrightarrow> last_connected (snd (initial_connect env t w)) \<noteq> None)"
  using try_connect_inv [of w env t]
  by (auto simp: initial_connect_def status_defs Let_def split: prod.splits option.splits)

lemma check_alive_inv:
  "(connected w \<longrightarrow> last_connected w \<noteq> None) \<Longrightarrow>
     (connected (snd (check_alive env t w)) \<longrightarrow> last_connected (snd (check_alive env t w)) \<noteq> None)"
  by (auto simp: check_alive_def client_defs status_defs Let_def
           split: prod.splits sum.splits option.splits)

lemma locked_body_inv:
  assumes "connected w \<longrightarrow> last_connected w \<noteq> None"
  shows "connected (snd (locked_body env t w)) \<longrightarrow> last_connected (snd (locked_body env t w)) \<noteq> None"
proof -
  define w1 where "w1 = (if client w = None then w\<lparr>client := Some (new_client env)\<rparr> else w)"
  from assms have i1: "connected w1 \<longrightarrow> last_connected w1 \<noteq> None" by (simp add: w1_def)
  obtain r w2 where ic: "initial_connect env t w1 = (r, w2)" by (cases "initial_connect env t w1")
  from initial_connect_inv [OF i1, of env t] ic
  have i2: "connected w2 \<longrightarrow> last_connected w2 \<noteq> None" by simp
  show ?thesis
  proof (cases r)
    case None
    with ic check_alive_inv [OF i2, of env t] show ?thesis
      by (simp add: locked_body_def w1_def [symmetric])
  next
    case (Some e)
    with ic i2 show ?thesis by (simp add: locked_body_def w1_def [symmetric])
  qed
qed

lemma ensure_connection_inv:
  assumes "connected w \<longrightarrow> last_connected w \<noteq> None"
  shows "connected (snd (ensure_connection env t w))
           \<longrightarrow> last_connected (snd (ensure_connection env t w)) \<noteq> None"
proof -
  from assms have "connected (emit Acquire w) \<longrightarrow> last_connected (emit Acquire w) \<noteq> None"
    by (simp add: emit_def)
  from locked_body_inv [OF this, of env t] show ?thesis
    by (cases "locked_body env t (emit Acquire w)") (simp add: ensure_connection_def emit_def)
qed

lemma keeper_tick_inv:
  "(connected w \<longrightarrow> last_connected w \<noteq> None) \<Longrightarrow>
     (connected (snd (keeper_tick env w)) \<longrightarrow> last_connected (snd (keeper_tick env w)) \<noteq> None)"
  by (auto simp: keeper_tick_def keeper_try_def client_defs status_defs Let_def
           split: prod.splits sum.splits option.splits)



lemma call_when_down:
  assumes up: "client_connect env s = (Inr (True, r), s1)"
    and alive: "client_check_connect env s1 = (Inr True, s2)"
    and c: "client w = Some s \<or> (client w = None \<and> new_client env = s)"
    and d: "\<not> connected w"
  shows "fst (ensure_connection env t w) = None
       \<and> connected (snd (ensure_connection env t w))
       \<and> client (snd (ensure_connection env t w)) = Some s2
       \<and> count_list (log (snd (ensure_connection env t w))) Connect
            = Suc (count_list (log w) Connect)"
  using assms
  by (auto simp: ensure_connection_def locked_body_def initial_connect_def try_connect_def
        check_alive_def client_defs status_defs Let_def)

lemma call_when_up:
  assumes alive: "client_check_connect env s = (Inr True, s1)"
    and c: "client w = Some s"
    and d: "connected w"
  shows "fst (ensure_connection env t w) = None
       \<and> connected (snd (ensure_connection env t w))
       \<and> client (snd (ensure_connection env t w)) = Some s1
       \<and> count_list (log (snd (ensure_connection env t w))) Connect
            = count_list (log w) Connect"
  using assms
  by (auto simp: ensure_connection_def locked_body_def initial_connect_def try_connect_def
        check_alive_def client_defs status_defs Let_def)

lemma all_when_up:
  assumes alive: "\<forall>s. \<exists>s'. client_check_connect env s = (Inr True, s')"
  shows "client w = Some s \<Longrightarrow> connected w \<Longrightarrow>
       fst (ensure_all env ts w) = replicate (length ts) None
       \<and> connected (snd (ensure_all env ts w))
       \<and> count_list (log (snd (ensure_all env ts w))) Connect = count_list (log w) Connect"
proof (induction ts arbitrary: w s)
  case Nil
  then show ?case by simp
next
  case (Cons t ts)
  from alive obtain s1 where a: "client_check_connect env s = (Inr True, s1)" by blast
  obtain r w' where e: "ensure_connection env t w = (r, w')" by (cases "ensure_connection env t w")
  from call_when_up [OF a Cons.prems, of t] e
  have r: "r = None" and c: "connected w'" and cl: "client w' = Some s1"
    and n: "count_list (log w') Connect = count_list (log w) Connect" by simp_all
  from Cons.IH [OF cl c] e r n show ?case
    by (cases "ensure_all env ts w'") simp
qed



lemma keeper_tick_quiet:
  "fst (keeper_tick env w) = None
   \<and> count_list (log (snd (keeper_tick env w))) Connect = count_list (log w) Connect
   \<and> count_list (log (snd (keeper_tick env w))) Sleep = Suc (count_list (log w) Sleep)"
  by (auto simp: keeper_tick_def keeper_try_def client_defs status_defs Let_def
           split: prod.splits sum.splits option.splits)

lemma keeper_tick_down:
  assumes "connected w"
    and "client w = None \<or> (\<exists>s. client w = Some s \<and> fst (client_check_connect env s) \<noteq> Inr True)"
  shows "\<not> connected (snd (keeper_tick env w))"
  using assms
  by (auto simp: keeper_tick_def keeper_try_def client_defs status_defs Let_def
           split: prod.splits sum.splits option.splits)

lemma keeper_runs:
  "fst (connection_keeper n env w) = None
   \<and> count_list (log (snd (connection_keeper n env w))) Sleep = count_list (log w) Sleep + n
   \<and> count_list (log (snd (connection_keeper n env w))) Connect = count_list (log w) Connect"
proof (induction n arbitrary: w)
  case 0
  show ?case by simp
next
  case (Suc n)
  obtain r w' where k: "keeper_tick env w = (r, w')" by (cases "keeper_tick env w")
  with keeper_tick_quiet [of env w] have "r = None"
    and "count_list (log w') Connect = count_list (log w) Connect"
    and "count_list (log w') Sleep = Suc (count_list (log w) Sleep)" by simp_all
  with Suc.IH [of w'] k show ?case by simp
qed

subsection \<open>Callers whose connect fails, and the rounds after a failed probe\<close>

lemma call_attempt_fails:
  assumes c: "client w = Some s \<or> (client w = None \<and> new_client env = s)"
    and d: "\<not> connected w"
    and down: "\<forall>r. fst (client_connect env s) \<noteq> Inr (True, r)"
  shows "fst (ensure_connection env t w) \<noteq> None
       \<and> \<not> connected (snd (ensure_connection env t w))
       \<and> client (snd (ensure_connection env t w)) \<noteq> None
       \<and> count_list (log (snd (ensure_connection env t w))) Connect
            = Suc (count_list (log w) Connect)"
proof -
  obtain r s' where cc: "client_connect env s = (r, s')" by (cases "client_connect env s")
  with down have nr: "\<forall>x. r \<noteq> Inr (True, x)" by simp
  show ?thesis
  proof (cases r)
    case (Inl e)
    with c d cc show ?thesis
      by (auto simp: ensure_connection_def locked_body_def initial_connect_def try_connect_def
            client_defs status_defs Let_def)
  next
    case (Inr p)
    obtain check reason where p: "p = (check, reason)" by (cases p)
    with Inr nr have "\<not> check" by auto
    with p Inr c d cc show ?thesis
      by (auto simp: ensure_connection_def locked_body_def initial_connect_def try_connect_def
            client_defs status_defs Let_def)
  qed
qed

lemma all_attempts_fail:
  assumes down: "\<forall>s r. fst (client_connect env s) \<noteq> Inr (True, r)"
  shows "\<not> connected w \<Longrightarrow>
       None \<notin> set (fst (ensure_all env ts w))
       \<and> length (fst (ensure_all env ts w)) = length ts
       \<and> \<not> connected (snd (ensure_all env ts w))
       \<and> count_list (log (snd (ensure_all env ts w))) Connect
            = count_list (log w) Connect + length ts"
proof (induction ts arbitrary: w)
  case Nil
  then show ?case by simp
next
  case (Cons t ts)
  obtain s where c: "client w = Some s \<or> (client w = None \<and> new_client env = s)"
    by (cases "client w") auto
  from down have dn: "\<forall>r. fst (client_connect env s) \<noteq> Inr (True, r)" by simp
  obtain x w' where e: "ensure_connection env t w = (x, w')" by (cases "ensure_connection env t w")
  from call_attempt_fails [OF c Cons.prems dn, of t] e
  have x: "x \<noteq> None" and d': "\<not> connected w'"
    and n: "count_list (log w') Connect = Suc (count_list (log w) Connect)" by simp_all
  from Cons.IH [OF d'] e x n show ?case
    by (cases "ensure_all env ts w'") auto
qed


lemma keeper_tick_when_down:
  "\<not> connected w \<Longrightarrow> keeper_tick env w = (None, emit Sleep w)"
  by (simp add: keeper_tick_def keeper_try_def)

lemma keeper_stays_down:
  "\<not> connected w \<Longrightarrow>
     \<not> connected (snd (connection_keeper n env w))
     \<and> count_list (log (snd (connection_keeper n env w))) Check_connect
          = count_list (log w) Check_connect"
proof (induction n arbitrary: w)
  case 0
  then show ?case by simp
next
  case (Suc n)
  from Suc.prems have "\<not> connected (emit Sleep w)" by (simp add: emit_def)
  from Suc.IH [OF this] Suc.prems show ?case
    by (simp add: keeper_tick_when_down emit_def)
qed

lemma keeper_unfold:
  "connection_keeper (Suc n) env w = connection_keeper n env (snd (keeper_tick env w))"
  using keeper_tick_quiet [of env w]
  by (cases "keeper_tick env w") simp

lemma keeper_tick_probe:
  "connected w \<Longrightarrow> client w \<noteq> None \<Longrightarrow>
     count_list (log (snd (keeper_tick env w))) Check_connect
       = Suc (count_list (log w) Check_connect)"
  by (auto simp: keeper_tick_def keeper_try_def client_defs status_defs Let_def
           split: prod.splits sum.splits option.splits)


subsection \<open>What is never undone\<close>

lemma try_connect_keeps_time:
  "last_connected w \<noteq> None \<Longrightarrow> last_connected (snd (try_connect env t w)) \<noteq> None"
  by (auto simp: try_connect_def client_defs status_defs Let_def
           split: prod.splits sum.splits option.splits)

lemma initial_connect_keeps_time:
  "last_connected w \<noteq> None \<Longrightarrow> last_connected (snd (initial_connect env t w)) \<noteq> None"
  using try_connect_keeps_time [of w env t]
  by (auto simp: initial_connect_def status_defs Let_def split: prod.splits option.splits)

lemma check_alive_keeps_time:
  "last_connected w \<noteq> None \<Longrightarrow> last_connected (snd (check_alive env t w)) \<noteq> None"
  by (auto simp: check_alive_def client_defs status_defs Let_def
           split: prod.splits sum.splits option.splits)

lemma ensure_connection_keeps_time:
  assumes "last_connected w \<noteq> None"
  shows "last_connected (snd (ensure_connection env t w)) \<noteq> None"
proof -
  define w1 where "w1 = (if client (emit Acquire w) = None
      then (emit Acquire w)\<lparr>client := Some (new_client env)\<rparr> else emit Acquire w)"
  from assms have i1: "last_connected w1 \<noteq> None" by (simp add: w1_def emit_def)
  obtain r w2 where ic: "initial_connect env t w1 = (r, w2)" by (cases "initial_connect env t w1")
  from initial_connect_keeps_time [OF i1, of env t] ic have i2: "last_connected w2 \<noteq> None" by simp
  obtain r3 w3 where lb: "locked_body env t (emit Acquire w) = (r3, w3)"
    by (cases "locked_body env t (emit Acquire w)")
  have "last_connected w3 \<noteq> None"
  proof (cases r)
    case None
    with ic lb check_alive_keeps_time [OF i2, of env t] show ?thesis
      by (simp add: locked_body_def w1_def [symmetric])
  next
    case (Some e)
    with ic lb i2 show ?thesis by (simp add: locked_body_def w1_def [symmetric])
  qed
  with lb show ?thesis by (simp add: ensure_connection_def emit_def)
qed

lemma keeper_tick_keeps_time: "last_connected (snd (keeper_tick env w)) = last_connected w"
  by (auto simp: keeper_tick_def keeper_try_def client_defs status_defs Let_def
           split: prod.splits sum.splits option.splits)

lemma try_connect_clears:
  "try_connect env t w = (None, w') \<Longrightarrow> connected w' \<and> last_error w' = None"
  by (auto simp: try_connect_def client_defs status_defs Let_def
           split: prod.splits sum.splits option.splits if_splits)

lemma initial_connect_clears:
  assumes "connected w \<longrightarrow> last_error w = None"
  shows "initial_connect env t w = (None, w') \<Longrightarrow> connected w' \<and> last_error w' = None"
    and "initial_connect env t w = (Some e, w') \<Longrightarrow> \<not> connected w'"
  using assms try_connect_clears [of env t w]
  by (auto simp: initial_connect_def status_defs Let_def split: prod.splits option.splits if_splits)

lemma check_alive_no_stale:
  "last_error w = None \<Longrightarrow>
     connected (snd (check_alive env t w)) \<longrightarrow> last_error (snd (check_alive env t w)) = None"
  by (auto simp: check_alive_def client_defs status_defs Let_def
           split: prod.splits sum.splits option.splits)

lemma ensure_connection_no_stale:
  assumes "connected w \<longrightarrow> last_error w = None"
  shows "connected (snd (ensure_connection env t w))
           \<longrightarrow> last_error (snd (ensure_connection env t w)) = None"
proof -
  define w1 where "w1 = (if client (emit Acquire w) = None
      then (emit Acquire w)\<lparr>client := Some (new_client env)\<rparr> else emit Acquire w)"
  from assms have i1: "connected w1 \<longrightarrow> last_error w1 = None" by (simp add: w1_def emit_def)
  obtain r w2 where ic: "initial_connect env t w1 = (r, w2)" by (cases "initial_connect env t w1")
  obtain r3 w3 where lb: "locked_body env t (emit Acquire w) = (r3, w3)"
    by (cases "locked_body env t (emit Acquire w)")
  have "connected w3 \<longrightarrow> last_error w3 = None"
  proof (cases r)
    case None
    with ic initial_connect_clears(1) [OF i1, of env t w2] have "last_error w2 = None" by simp
    from check_alive_no_stale [OF this, of env t] None ic lb show ?thesis
      by (simp add: locked_body_def w1_def [symmetric])
  next
    case (Some e)
    with ic initial_connect_clears(2) [OF i1, of env t e w2] have "\<not> connected w2" by simp
    with Some ic lb show ?thesis by (simp add: locked_body_def w1_def [symmetric])
  qed
  with lb show ?thesis by (simp add: ensure_connection_def emit_def)
qed

lemma keeper_tick_no_stale:
  "(connected w \<longrightarrow> last_error w = None) \<Longrightarrow>
     (connected (snd (keeper_tick env w)) \<longrightarrow> last_error (snd (keeper_tick env w)) = None)"
  by (auto simp: keeper_tick_def keeper_try_def client_defs status_defs Let_def
           split: prod.splits sum.splits option.splits)

lemma reachable_no_stale_error: "reachable env w \<Longrightarrow> connected w \<longrightarrow> last_error w = None"
proof (induction rule: reachable.induct)
  case start
  show ?case by (simp add: initial_world_def)
next
  case (ensure w t)
  then show ?case by (simp add: ensure_connection_no_stale)
next
  case (tick w)
  then show ?case by (simp add: keeper_tick_no_stale)
qed

lemma check_alive_keeps_error:
  "last_error w \<noteq> None \<Longrightarrow> last_error (snd (check_alive env t w)) \<noteq> None"
  by (auto simp: check_alive_def client_defs status_defs Let_def
           split: prod.splits sum.splits option.splits)

lemma error_kept_when_connected:
  assumes "connected w" and "last_error w \<noteq> None"
  shows "last_error (snd (ensure_connection env t w)) \<noteq> None"
proof -
  define w1 where "w1 = (if client (emit Acquire w) = None
      then (emit Acquire w)\<lparr>client := Some (new_client env)\<rparr> else emit Acquire w)"
  from assms have c1: "connected w1" and e1: "last_error w1 \<noteq> None"
    by (simp_all add: w1_def emit_def)
  from c1 have ic: "initial_connect env t w1 = (None, w1)" by (simp add: initial_connect_def)
  obtain r3 w3 where lb: "locked_body env t (emit Acquire w) = (r3, w3)"
    by (cases "locked_body env t (emit Acquire w)")
  with ic have "check_alive env t w1 = (r3, w3)"
    by (simp add: locked_body_def w1_def [symmetric])
  with check_alive_keeps_error [OF e1, of env t] have "last_error w3 \<noteq> None" by simp
  with lb show ?thesis by (simp add: ensure_connection_def emit_def)
qed

subsection \<open>The statements about the connection manager\<close>

text \<open>
  C1, as amended. Callers of \<open>ensure_connection\<close> that start together run one after the
  other under the lock; let the status be disconnected. If every \<open>connect()\<close> succeeds
  and every \<open>check_connect()\<close> reports a live session, then one \<open>connect()\<close> is made
  by all callers together, every caller returns normally, and the status is connected
  afterwards. If no \<open>connect()\<close> succeeds (it reports a failure or raises), then every
  caller makes an attempt of its own and gets an exception, and the status stays
  disconnected.
\<close>

theorem serialized_callers_one_connect:
  assumes d: "\<not> connected w" and ne: "ts \<noteq> []"
  shows "((\<forall>s. \<exists>r s'. client_connect env s = (Inr (True, r), s'))
          \<and> (\<forall>s. \<exists>s'. client_check_connect env s = (Inr True, s')) \<longrightarrow>
            fst (ensure_all env ts w) = replicate (length ts) None
            \<and> connected (snd (ensure_all env ts w))
            \<and> count_list (log (snd (ensure_all env ts w))) Connect
                 = Suc (count_list (log w) Connect))
       \<and> ((\<forall>s r. fst (client_connect env s) \<noteq> Inr (True, r)) \<longrightarrow>
            None \<notin> set (fst (ensure_all env ts w))
            \<and> length (fst (ensure_all env ts w)) = length ts
            \<and> \<not> connected (snd (ensure_all env ts w))
            \<and> count_list (log (snd (ensure_all env ts w))) Connect
                 = count_list (log w) Connect + length ts)"
proof (intro conjI impI)
  assume h: "(\<forall>s. \<exists>r s'. client_connect env s = (Inr (True, r), s'))
          \<and> (\<forall>s. \<exists>s'. client_check_connect env s = (Inr True, s'))"
  then have up: "\<forall>s. \<exists>r s'. client_connect env s = (Inr (True, r), s')"
    and alive: "\<forall>s. \<exists>s'. client_check_connect env s = (Inr True, s')" by simp_all
  from ne obtain t ts' where ts: "ts = t # ts'" by (cases ts) auto
  obtain s where c: "client w = Some s \<or> (client w = None \<and> new_client env = s)"
    by (cases "client w") auto
  from up obtain r s1 where u: "client_connect env s = (Inr (True, r), s1)" by blast
  from alive obtain s2 where a: "client_check_connect env s1 = (Inr True, s2)" by blast
  obtain x w' where e: "ensure_connection env t w = (x, w')" by (cases "ensure_connection env t w")
  from call_when_down [OF u a c d, of t] e
  have x: "x = None" and cw: "connected w'" and cl: "client w' = Some s2"
    and n: "count_list (log w') Connect = Suc (count_list (log w) Connect)" by simp_all
  have all: "fst (ensure_all env ts w) = replicate (length ts) None
       \<and> connected (snd (ensure_all env ts w))
       \<and> count_list (log (snd (ensure_all env ts w))) Connect = Suc (count_list (log w) Connect)"
    using all_when_up [OF alive cl cw, of ts'] e x n ts
    by (cases "ensure_all env ts' w'") simp
  from all show "fst (ensure_all env ts w) = replicate (length ts) None" by simp
  from all show "connected (snd (ensure_all env ts w))" by simp
  from all show "count_list (log (snd (ensure_all env ts w))) Connect
      = Suc (count_list (log w) Connect)" by simp
next
  assume down: "\<forall>s r. fst (client_connect env s) \<noteq> Inr (True, r)"
  note f = all_attempts_fail [OF down d, of ts]
  from f show "None \<notin> set (fst (ensure_all env ts w))" by simp
  from f show "length (fst (ensure_all env ts w)) = length ts" by simp
  from f show "\<not> connected (snd (ensure_all env ts w))" by simp
  from f show "count_list (log (snd (ensure_all env ts w))) Connect
      = count_list (log w) Connect + length ts" by simp
qed

theorem serialized_callers_one_connect_witness:
  "(\<forall>s. \<exists>r s'. client_connect env_up s = (Inr (True, r), s'))
   \<and> (\<forall>s. \<exists>s'. client_check_connect env_up s = (Inr True, s'))
   \<and> \<not> connected (initial_world :: unit world)
   \<and> fst (ensure_all env_up [1, 2, 3] initial_world) = [None, None, None]
   \<and> connected (snd (ensure_all env_up [1, 2, 3] initial_world))
   \<and> count_list (log (snd (ensure_all env_up [1, 2, 3] initial_world))) Connect = 1
   \<and> (\<forall>s r. fst (client_connect env_down s) \<noteq> Inr (True, r))
   \<and> None \<notin> set (fst (ensure_all env_down [1, 2, 3, 4] initial_world))
   \<and> length (fst (ensure_all env_down [1, 2, 3, 4] initial_world)) = 4
   \<and> \<not> connected (snd (ensure_all env_down [1, 2, 3, 4] initial_world))
   \<and> count_list (log (snd (ensure_all env_down [1, 2, 3, 4] initial_world))) Connect = 4"
proof -
  have up: "\<forall>s. \<exists>r s'. client_connect env_up s = (Inr (True, r), s')"
    by (simp add: env_up_def)
  have alive: "\<forall>s. \<exists>s'. client_check_connect env_up s = (Inr True, s')"
    by (simp add: env_up_def)
  have down: "\<forall>s r. fst (client_connect env_down s) \<noteq> Inr (True, r)"
    by (simp add: env_down_def)
  have d: "\<not> connected (initial_world :: unit world)" by (simp add: initial_world_def)
  have ne: "[1, 2, 3] \<noteq> ([] :: nat list)" and ne': "[1, 2, 3, 4] \<noteq> ([] :: nat list)"
    by simp_all
  from serialized_callers_one_connect [OF d ne, of env_up]
    serialized_callers_one_connect [OF d ne', of env_down] up alive down d
  show ?thesis by (simp add: initial_world_def numeral_3_eq_3)
qed

text \<open>
  C1, as stated, fails: when \<open>connect()\<close> reports a failure, each of two callers makes
  its own attempt, so two \<open>connect()\<close> calls are made.
\<close>

theorem serialized_callers_counterexample:
  "count_list (log (snd (ensure_all env_down [1, 2] initial_world))) Connect = 2
   \<and> \<not> connected (snd (ensure_all env_down [1, 2] initial_world))"
  by code_simp

text \<open>
  C7. In a round of the keeper that starts connected and whose probe is not made
  (\<open>client\<close> is \<open>None\<close>), returns false or raises, the status becomes disconnected, no
  \<open>connect()\<close> is made and no exception leaves the round. The loop goes on from the state
  that the round leaves: all the rounds that remain until the task is cancelled are run,
  and none of them probes or connects, so the status is still disconnected after them.
\<close>

theorem keeper_round_failed_probe:
  assumes "connected w"
    and "client w = None \<or> (\<exists>s. client w = Some s \<and> fst (client_check_connect env s) \<noteq> Inr True)"
  shows "fst (keeper_tick env w) = None
       \<and> \<not> connected (snd (keeper_tick env w))
       \<and> count_list (log (snd (keeper_tick env w))) Connect = count_list (log w) Connect
       \<and> (client w \<noteq> None \<longrightarrow>
            count_list (log (snd (keeper_tick env w))) Check_connect
              = Suc (count_list (log w) Check_connect))
       \<and> connection_keeper (Suc n) env w = connection_keeper n env (snd (keeper_tick env w))
       \<and> fst (connection_keeper (Suc n) env w) = None
       \<and> \<not> connected (snd (connection_keeper (Suc n) env w))
       \<and> count_list (log (snd (connection_keeper (Suc n) env w))) Sleep
            = count_list (log w) Sleep + Suc n
       \<and> count_list (log (snd (connection_keeper (Suc n) env w))) Connect
            = count_list (log w) Connect
       \<and> count_list (log (snd (connection_keeper (Suc n) env w))) Check_connect
            = count_list (log (snd (keeper_tick env w))) Check_connect"
proof -
  have down: "\<not> connected (snd (keeper_tick env w))" by (rule keeper_tick_down [OF assms])
  have u: "connection_keeper (Suc n) env w = connection_keeper n env (snd (keeper_tick env w))"
    by (rule keeper_unfold)
  from keeper_stays_down [OF down, of n env] u
  have after: "\<not> connected (snd (connection_keeper (Suc n) env w))"
    and probes: "count_list (log (snd (connection_keeper (Suc n) env w))) Check_connect
            = count_list (log (snd (keeper_tick env w))) Check_connect" by simp_all
  from keeper_tick_quiet [of env w] keeper_runs [of "Suc n" env w]
    keeper_tick_probe [OF assms(1), of env] down u after probes
  show ?thesis by simp
qed

theorem keeper_round_failed_probe_witness:
  "connected world_live
   \<and> client world_live = Some ()
   \<and> fst (client_check_connect env_broken ()) = Inl (Raised ''socket closed'')
   \<and> fst (keeper_tick env_broken world_live) = None
   \<and> \<not> connected (snd (keeper_tick env_broken world_live))
   \<and> count_list (log (snd (keeper_tick env_broken world_live))) Connect = 0
   \<and> count_list (log (snd (keeper_tick env_broken world_live))) Check_connect = 1
   \<and> fst (connection_keeper (Suc 4) env_broken world_live) = None
   \<and> \<not> connected (snd (connection_keeper (Suc 4) env_broken world_live))
   \<and> count_list (log (snd (connection_keeper (Suc 4) env_broken world_live))) Sleep = 5
   \<and> count_list (log (snd (connection_keeper (Suc 4) env_broken world_live))) Connect = 0
   \<and> count_list (log (snd (connection_keeper (Suc 4) env_broken world_live))) Check_connect = 1"
proof -
  have c: "connected world_live" by (simp add: world_live_def)
  have p: "client world_live = None
      \<or> (\<exists>s. client world_live = Some s \<and> fst (client_check_connect env_broken s) \<noteq> Inr True)"
    by (simp add: world_live_def env_broken_def)
  have cl: "client world_live = Some ()" by (simp add: world_live_def)
  have h: "fst (client_check_connect env_broken ()) = Inl (Raised ''socket closed'')"
    by (simp add: env_broken_def)
  have z: "count_list (log world_live) Connect = 0"
    "count_list (log world_live) Check_connect = 0"
    "count_list (log world_live) Sleep = 0"
    by (simp_all add: world_live_def)
  from keeper_round_failed_probe [OF c p, of 4]
  have "fst (keeper_tick env_broken world_live) = None
       \<and> \<not> connected (snd (keeper_tick env_broken world_live))
       \<and> count_list (log (snd (keeper_tick env_broken world_live))) Connect
            = count_list (log world_live) Connect
       \<and> (client world_live \<noteq> None \<longrightarrow>
            count_list (log (snd (keeper_tick env_broken world_live))) Check_connect
              = Suc (count_list (log world_live) Check_connect))
       \<and> fst (connection_keeper (Suc 4) env_broken world_live) = None
       \<and> \<not> connected (snd (connection_keeper (Suc 4) env_broken world_live))
       \<and> count_list (log (snd (connection_keeper (Suc 4) env_broken world_live))) Sleep
            = count_list (log world_live) Sleep + Suc 4
       \<and> count_list (log (snd (connection_keeper (Suc 4) env_broken world_live))) Connect
            = count_list (log world_live) Connect
       \<and> count_list (log (snd (connection_keeper (Suc 4) env_broken world_live))) Check_connect
            = count_list (log (snd (keeper_tick env_broken world_live))) Check_connect"
    by blast
  with c cl h z show ?thesis by simp
qed

text \<open>
  C8. The code does not do this: a round of the keeper stores into
  \<open>connection_status\<close> without acquiring \<open>connection_lock\<close>. Here the round starts
  connected and the probe returns false. A call of \<open>ensure_connection\<close> in the same
  state makes all its stores under the lock.
\<close>

theorem keeper_writes_without_lock:
  "log (snd (keeper_tick env_lost world_live)) = [Check_connect, Status_write, Sleep]
   \<and> \<not> guarded False (log (snd (keeper_tick env_lost world_live)))
   \<and> guarded False (log (snd (ensure_connection env_lost 7 world_live)))"
  by code_simp

text \<open>
  C9. In every state that calls of \<open>ensure_connection\<close> and rounds of the keeper lead
  to from the initial state, a connected status has its time of connection set; and
  neither a call nor a round unsets a time of connection that is set.
\<close>

theorem connected_has_timestamp:
  assumes "reachable env w"
  shows "(connected w \<longrightarrow> last_connected w \<noteq> None)
       \<and> (last_connected w \<noteq> None \<longrightarrow>
            last_connected (snd (ensure_connection env t w)) \<noteq> None
            \<and> last_connected (snd (keeper_tick env w)) \<noteq> None)"
proof -
  from assms have "connected w \<longrightarrow> last_connected w \<noteq> None"
  proof (induction rule: reachable.induct)
    case start
    show ?case by (simp add: initial_world_def)
  next
    case (ensure w t)
    then show ?case by (simp add: ensure_connection_inv)
  next
    case (tick w)
    then show ?case by (simp add: keeper_tick_inv)
  qed
  then show ?thesis
    by (simp add: ensure_connection_keeps_time keeper_tick_keeps_time)
qed

theorem connected_has_timestamp_witness:
  "reachable env_up (snd (ensure_connection env_up 5 initial_world))
   \<and> connected (snd (ensure_connection env_up 5 initial_world))
   \<and> last_connected (snd (ensure_connection env_up 5 initial_world)) \<noteq> None
   \<and> last_connected (snd (keeper_tick env_up (snd (ensure_connection env_up 5 initial_world))))
        \<noteq> None"
proof -
  have r: "reachable env_up (snd (ensure_connection env_up 5 initial_world))"
    by (rule reachable.ensure [OF reachable.start])
  have c: "connected (snd (ensure_connection env_up 5 initial_world))" by code_simp
  from connected_has_timestamp [OF r] r c show ?thesis by simp
qed

text \<open>
  C10, as amended. When \<open>ensure_connection\<close> starts connected, the probe returns false
  and the reconnect succeeds, the call returns normally with the status connected, the
  time of connection renewed and \<open>last_error\<close> as it was before the call: only the first
  connect (line 72) clears it. In a state that the server can be in, a connected status has
  no error text, so what is kept is \<open>None\<close>.
\<close>

theorem reconnect_keeps_last_error:
  assumes "connected w" and "client w = Some s"
    and "client_check_connect env s = (Inr False, s1)"
    and "client_connect env s1 = (Inr (True, reason), s2)"
  shows "fst (ensure_connection env t w) = None
       \<and> connected (snd (ensure_connection env t w))
       \<and> last_connected (snd (ensure_connection env t w)) = Some t
       \<and> last_error (snd (ensure_connection env t w)) = last_error w
       \<and> count_list (log (snd (ensure_connection env t w))) Connect
            = Suc (count_list (log w) Connect)
       \<and> (reachable env w \<longrightarrow>
            last_error w = None \<and> last_error (snd (ensure_connection env t w)) = None)"
proof -
  have frame: "fst (ensure_connection env t w) = None
       \<and> connected (snd (ensure_connection env t w))
       \<and> last_connected (snd (ensure_connection env t w)) = Some t
       \<and> last_error (snd (ensure_connection env t w)) = last_error w
       \<and> count_list (log (snd (ensure_connection env t w))) Connect
            = Suc (count_list (log w) Connect)"
    using assms
    by (auto simp: ensure_connection_def locked_body_def initial_connect_def try_connect_def
          check_alive_def client_defs status_defs Let_def)
  with reachable_no_stale_error [of env w] assms(1) show ?thesis by simp
qed

theorem reconnect_keeps_last_error_witness:
  "reachable env_lost (snd (ensure_connection env_lost 1 initial_world))
   \<and> connected (snd (ensure_connection env_lost 1 initial_world))
   \<and> client (snd (ensure_connection env_lost 1 initial_world)) = Some ()
   \<and> client_check_connect env_lost () = (Inr False, ())
   \<and> client_connect env_lost () = (Inr (True, ''ok''), ())
   \<and> fst (ensure_connection env_lost 7 (snd (ensure_connection env_lost 1 initial_world))) = None
   \<and> connected (snd (ensure_connection env_lost 7
         (snd (ensure_connection env_lost 1 initial_world))))
   \<and> last_error (snd (ensure_connection env_lost 7
         (snd (ensure_connection env_lost 1 initial_world)))) = None"
proof -
  have r: "reachable env_lost (snd (ensure_connection env_lost 1 initial_world))"
    by (rule reachable.ensure [OF reachable.start])
  have c: "connected (snd (ensure_connection env_lost 1 initial_world))" by code_simp
  have cl: "client (snd (ensure_connection env_lost 1 initial_world)) = Some ()" by code_simp
  have p: "client_check_connect env_lost () = (Inr False, ())"
    and u: "client_connect env_lost () = (Inr (True, ''ok''), ())"
    by (simp_all add: env_lost_def)
  from reconnect_keeps_last_error [OF c cl p u, of 7] r c cl p u show ?thesis by simp
qed

text \<open>
  C10, as stated, fails in its last part: a connected status never holds an error text.
  An error stored by a failed reconnect (first caller) is cleared by the first connect of
  the next caller, before that caller's own reconnect succeeds; and the connected state
  with an error text, \<open>world_stale\<close>, is not reached.
\<close>

theorem stale_error_counterexample:
  "\<not> connected (snd (ensure_connection env_script 1 initial_world))
   \<and> last_error (snd (ensure_connection env_script 1 initial_world)) = Some [Lit ''down'']
   \<and> fst (ensure_all env_script [1, 2] initial_world)
        = [Some (HTTPException 503 [Lit ''Reconnection failed: '', Lit ''down'']), None]
   \<and> connected (snd (ensure_all env_script [1, 2] initial_world))
   \<and> last_error (snd (ensure_all env_script [1, 2] initial_world)) = None
   \<and> count_list (log (snd (ensure_all env_script [1, 2] initial_world))) Connect = 4
   \<and> \<not> reachable env_lost world_stale"
proof -
  have run: "\<not> connected (snd (ensure_connection env_script 1 initial_world))
   \<and> last_error (snd (ensure_connection env_script 1 initial_world)) = Some [Lit ''down'']
   \<and> fst (ensure_all env_script [1, 2] initial_world)
        = [Some (HTTPException 503 [Lit ''Reconnection failed: '', Lit ''down'']), None]
   \<and> connected (snd (ensure_all env_script [1, 2] initial_world))
   \<and> last_error (snd (ensure_all env_script [1, 2] initial_world)) = None
   \<and> count_list (log (snd (ensure_all env_script [1, 2] initial_world))) Connect = 4"
    by code_simp
  have "\<not> reachable env_lost world_stale"
  proof
    assume "reachable env_lost world_stale"
    then have "connected world_stale \<longrightarrow> last_error world_stale = None"
      by (rule reachable_no_stale_error)
    then show False by (simp add: world_stale_def world_live_def)
  qed
  with run show ?thesis by simp
qed

end
